theory Spec2Isabelle
  imports Main "HOL-Library.Word"
begin

unbundle bit_operations_syntax

section \<open>The cycle-based compressor of \<^verbatim>\<open>cycle_based_compressor.c\<close>\<close>

text \<open>
  The development embeds the C functions of the compressor as HOL functions and proves
  the properties its specification states about them.

  Conventions of the embedding:
  \<^item> An \<^verbatim>\<open>unsigned char\<close> is an \<open>8 word\<close>. A C \<^verbatim>\<open>int\<close> that only counts upwards
    from zero (frequencies, sizes, indices, run lengths) is a \<open>nat\<close>; the caller's
    \<^verbatim>\<open>original_len\<close> and the entries of the look-up table, which may be negative, are
    \<open>int\<close>. No counter of the program leaves the range of a 32-bit \<^verbatim>\<open>int\<close> while the
    payload is shorter than \<open>2^28\<close> bytes; larger buffers are outside the model.
  \<^item> \<^verbatim>\<open>malloc\<close> and \<^verbatim>\<open>realloc\<close> are taken to succeed; their failure branches
    (\<^verbatim>\<open>exit(1)\<close>) are not part of the model.
  \<^item> The input \<^verbatim>\<open>const char *text\<close> is the list of bytes stored at \<^verbatim>\<open>text\<close>. The
    string the program sees ends before the first zero byte (\<open>strlen\<close>); the end of
    the list stands for the terminating zero byte when the list holds none.
  \<^item> \<^verbatim>\<open>exit(1)\<close> after a message on \<^verbatim>\<open>stderr\<close> is the left injection of a sum; a
    message on \<^verbatim>\<open>stderr\<close> followed by a normal return (the decoder) is a second
    component of the result.
  \<^item> The fields \<^verbatim>\<open>m\<close>, \<^verbatim>\<open>j\<close> of \<^verbatim>\<open>CodeEntry\<close> are \<open>code_m\<close>, \<open>code_j\<close>, and the
    fields of \<^verbatim>\<open>BitWriter\<close> carry the prefix \<open>bw_\<close>, so that they do not take the
    names of variables and of \<open>size\<close>.
\<close>

subsection \<open>Constants and structures\<close>

type_synonym u8 = "8 word"

definition ALPHABET_SIZE :: nat where
  "ALPHABET_SIZE = 256"

record CodeEntry =
  symbol :: u8
  freq :: nat
  code_m :: nat
  code_j :: nat

record BitWriter =
  bw_data :: "u8 list"
  bw_capacity :: nat
  bw_size :: nat
  bw_bit_pos :: nat

text \<open>How a run of the encoder ends when it does not return a buffer: both are
  \<^verbatim>\<open>fprintf(stderr, ...); exit(1);\<close> in the source.\<close>

datatype exit_reason = TooManySymbols | SymbolNotInLUT

text \<open>What the decoder prints on \<^verbatim>\<open>stderr\<close> before it returns.\<close>

datatype diagnostic = InvalidCompressedData | PairNotFound nat nat

subsection \<open>BitWriter helpers\<close>

definition bw_init :: "nat \<Rightarrow> BitWriter" where
  "bw_init cap = \<lparr>bw_data = replicate cap 0, bw_capacity = cap, bw_size = 0, bw_bit_pos = 0\<rparr>"

definition bw_ensure_space :: "BitWriter \<Rightarrow> BitWriter" where
  "bw_ensure_space bw =
     (if bw_size bw \<ge> bw_capacity bw
      then (let new_cap = bw_capacity bw * 2;
                new_cap = (if new_cap < 16 then 16 else new_cap)
            in bw\<lparr>bw_data := bw_data bw @ replicate (new_cap - bw_capacity bw) 0,
                  bw_capacity := new_cap\<rparr>)
      else bw)"

definition bw_put_bit :: "BitWriter \<Rightarrow> int \<Rightarrow> BitWriter" where
  "bw_put_bit bw b =
     (let bw1 = (if bw_size bw = 0 \<and> bw_bit_pos bw = 0
                 then (let e = bw_ensure_space bw
                       in e\<lparr>bw_size := 1, bw_data := (bw_data e)[0 := 0]\<rparr>)
                 else bw);
          bw2 = (if bw_bit_pos bw1 = 8
                 then (let e = bw_ensure_space bw1
                       in e\<lparr>bw_data := (bw_data e)[bw_size e := 0],
                            bw_size := bw_size e + 1,
                            bw_bit_pos := 0\<rparr>)
                 else bw1);
          bw3 = (if b \<noteq> 0
                 then bw2\<lparr>bw_data := (bw_data bw2)
                        [bw_size bw2 - 1 :=
                           (bw_data bw2 ! (bw_size bw2 - 1)) OR push_bit (7 - bw_bit_pos bw2) 1]\<rparr>
                 else bw2)
      in bw3\<lparr>bw_bit_pos := bw_bit_pos bw3 + 1\<rparr>)"

text \<open>\<^verbatim>\<open>for (int i = 0; i < n; i++) bw_put_bit(bw, b);\<close>\<close>

fun put_bits :: "BitWriter \<Rightarrow> int \<Rightarrow> nat \<Rightarrow> BitWriter" where
  "put_bits bw b 0 = bw"
| "put_bits bw b (Suc n) = put_bits (bw_put_bit bw b) b n"

definition bw_put_cycle :: "BitWriter \<Rightarrow> nat \<Rightarrow> nat \<Rightarrow> BitWriter" where
  "bw_put_cycle bw m j = put_bits (put_bits bw 0 m) 1 j"

subsection \<open>Frequency counting\<close>

definition strlen :: "u8 list \<Rightarrow> nat" where
  "strlen text = length (takeWhile (\<lambda>c. c \<noteq> 0) text)"

text \<open>The loop visits \<^verbatim>\<open>text[0 .. length-1]\<close> in order.\<close>

definition count_character_frequency :: "u8 list \<Rightarrow> nat list \<Rightarrow> nat list" where
  "count_character_frequency text freq_table =
     fold (\<lambda>c ft. ft[unat c := ft ! unat c + 1]) (take (strlen text) text) freq_table"

subsection \<open>Sorting by frequency (descending) and symbol (ascending)\<close>

definition compare_codeentry :: "CodeEntry \<Rightarrow> CodeEntry \<Rightarrow> int" where
  "compare_codeentry ca cb =
     (if freq ca > freq cb then - 1
      else if freq ca < freq cb then 1
      else if symbol ca < symbol cb then - 1
      else if symbol ca > symbol cb then 1
      else 0)"

text \<open>
  \<^verbatim>\<open>qsort\<close> is the C library's; it is modelled by insertion sort with the comparator.
  The entries the encoder sorts carry pairwise different symbols, so no two of them
  compare equal and every sorting algorithm returns the same array
  (lemma \<open>sorted_entries_unique\<close>).
\<close>

fun insert_entry :: "CodeEntry \<Rightarrow> CodeEntry list \<Rightarrow> CodeEntry list" where
  "insert_entry e [] = [e]"
| "insert_entry e (x # xs) =
     (if compare_codeentry e x \<le> 0 then e # x # xs else x # insert_entry e xs)"

definition qsort_entries :: "CodeEntry list \<Rightarrow> CodeEntry list" where
  "qsort_entries codes = foldr insert_entry codes []"

subsection \<open>Cycle generation\<close>

text \<open>The inner \<^verbatim>\<open>for\<close> loop of \<^verbatim>\<open>generate_cycles_for_codes\<close>, from a given \<open>m\<close> on;
  it returns the array and \<open>count\<close>.\<close>

function gen_inner :: "CodeEntry list \<Rightarrow> nat \<Rightarrow> nat \<Rightarrow> nat \<Rightarrow> nat \<Rightarrow> CodeEntry list \<times> nat" where
  "gen_inner codes K L m count =
     (if m \<ge> 1 \<and> count < K
      then (let j = L - m
            in gen_inner (codes[count := (codes ! count)\<lparr>code_m := m, code_j := j\<rparr>])
                 K L (m - 1) (count + 1))
      else (codes, count))"
  by pat_completeness auto
termination
  by (relation "measure (\<lambda>(codes, K, L, m, count). m)") auto

declare gen_inner.simps [simp del]

lemma gen_inner_count:
  "gen_inner codes K L m count = (codes', count') \<Longrightarrow>
     count \<le> count' \<and> (1 \<le> m \<and> count < K \<longrightarrow> count < count')"
proof (induction codes K L m count arbitrary: codes' count' rule: gen_inner.induct)
  case (1 codes K L m count)
  show ?case
  proof (cases "m \<ge> 1 \<and> count < K")
    case True
    with "1.prems" have "gen_inner (codes[count := (codes ! count)\<lparr>code_m := m, code_j := L - m\<rparr>])
        K L (m - 1) (count + 1) = (codes', count')"
      by (simp add: gen_inner.simps[of codes K L m count] Let_def)
    from "1.IH"[OF True refl this] show ?thesis by auto
  next
    case False
    with "1.prems" show ?thesis by (auto simp: gen_inner.simps[of codes K L m count])
  qed
qed

text \<open>The outer \<^verbatim>\<open>while (count < K)\<close> loop.\<close>

function gen_outer :: "CodeEntry list \<Rightarrow> nat \<Rightarrow> nat \<Rightarrow> nat \<Rightarrow> CodeEntry list" where
  "gen_outer codes K L count =
     (if count < K
      then (case gen_inner codes K L (L - 1) count of
              (codes', count') \<Rightarrow> gen_outer codes' K (L + 1) count')
      else codes)"
  by pat_completeness auto
termination
proof (relation "measure (\<lambda>(codes, K, L, count). (K - count) + (2 - L))", goal_cases)
  case 1
  show ?case by simp
next
  case (2 codes K L count codes' count')
  from gen_inner_count[OF "2"(2)[symmetric]] "2"(1)
  show ?case by (cases "L \<ge> 2") auto
qed

declare gen_outer.simps [simp del]

definition generate_cycles_for_codes :: "CodeEntry list \<Rightarrow> nat \<Rightarrow> CodeEntry list" where
  "generate_cycles_for_codes codes K = gen_outer codes K 2 0"

subsection \<open>Compression\<close>

text \<open>The table of the symbols with \<^verbatim>\<open>freq > 0\<close>, in ascending symbol order; \<open>K\<close> is
  its length.\<close>

definition collect_entries :: "nat list \<Rightarrow> CodeEntry list" where
  "collect_entries freq_table =
     map (\<lambda>c. \<lparr>symbol = of_nat c, freq = freq_table ! c, code_m = 0, code_j = 0\<rparr>)
       (filter (\<lambda>c. freq_table ! c > 0) [0..<ALPHABET_SIZE])"

definition build_lut :: "CodeEntry list \<Rightarrow> nat \<Rightarrow> int list" where
  "build_lut codes K =
     fold (\<lambda>i lut. lut[unat (symbol (codes ! i)) := int i]) [0..<K]
       (replicate ALPHABET_SIZE (- 1))"

text \<open>The loop that writes the payload, over \<^verbatim>\<open>text[0 .. len-1]\<close>.\<close>

fun write_payload :: "CodeEntry list \<Rightarrow> int list \<Rightarrow> u8 list \<Rightarrow> BitWriter \<Rightarrow> exit_reason + BitWriter" where
  "write_payload codes lut [] bw = Inr bw"
| "write_payload codes lut (c # cs) bw =
     (let idx = lut ! unat c
      in if idx < 0 then Inl SymbolNotInLUT
         else write_payload codes lut cs
                (bw_put_cycle bw (code_m (codes ! nat idx)) (code_j (codes ! nat idx))))"

text \<open>Everything after the frequency count, as a function of the frequency table.\<close>

definition compress_with_freq :: "nat list \<Rightarrow> u8 list \<Rightarrow> exit_reason + u8 list" where
  "compress_with_freq freq_table text =
     (let codes = collect_entries freq_table;
          K = length codes
      in if K = 0 then Inr []
         else if K > 255 then Inl TooManySymbols
         else (let codes = qsort_entries codes;
                   codes = generate_cycles_for_codes codes K;
                   lut = build_lut codes K
               in case write_payload codes lut (take (strlen text) text) (bw_init 64) of
                    Inl e \<Rightarrow> Inl e
                  | Inr bw \<Rightarrow>
                      Inr (of_nat K # map symbol (take K codes) @ take (bw_size bw) (bw_data bw))))"

definition compress_cycle_based :: "u8 list \<Rightarrow> exit_reason + u8 list" where
  "compress_cycle_based text =
     compress_with_freq (count_character_frequency text (replicate ALPHABET_SIZE 0)) text"

subsection \<open>Decompression\<close>

text \<open>\<^verbatim>\<open>(payload[bit_index / 8] >> (7 - bit_index % 8)) & 1\<close>\<close>

definition payload_bit :: "u8 list \<Rightarrow> nat \<Rightarrow> u8" where
  "payload_bit payload bit_index =
     drop_bit (7 - bit_index mod 8) (payload ! (bit_index div 8)) AND 1"

text \<open>The first inner loop: count zeros until the first one. It returns
  \<open>(bit_index, m, j)\<close>; \<open>nbits\<close> is \<^verbatim>\<open>payload_bytes * 8\<close>.\<close>

function count_zeros :: "u8 list \<Rightarrow> nat \<Rightarrow> nat \<Rightarrow> nat \<Rightarrow> nat \<times> nat \<times> nat" where
  "count_zeros payload nbits bit_index m =
     (if bit_index < nbits
      then (if payload_bit payload bit_index = 0
            then count_zeros payload nbits (bit_index + 1) (m + 1)
            else (bit_index + 1, m, 1))
      else (bit_index, m, 0))"
  by pat_completeness auto
termination
  by (relation "measure (\<lambda>(payload, nbits, bit_index, m). nbits - bit_index)") auto

declare count_zeros.simps [simp del]

text \<open>The second inner loop: count consecutive ones. It returns \<open>(bit_index, j)\<close>.\<close>

function count_ones :: "u8 list \<Rightarrow> nat \<Rightarrow> nat \<Rightarrow> nat \<Rightarrow> nat \<times> nat" where
  "count_ones payload nbits bit_index j =
     (if bit_index < nbits
      then (if payload_bit payload bit_index = 1
            then count_ones payload nbits (bit_index + 1) (j + 1)
            else (bit_index, j))
      else (bit_index, j))"
  by pat_completeness auto
termination
  by (relation "measure (\<lambda>(payload, nbits, bit_index, j). nbits - bit_index)") auto

declare count_ones.simps [simp del]

text \<open>The linear search for \<open>(m, j)\<close>, from index \<open>i\<close> on; \<open>- 1\<close> when there is none.\<close>

function find_code :: "CodeEntry list \<Rightarrow> nat \<Rightarrow> nat \<Rightarrow> nat \<Rightarrow> nat \<Rightarrow> int" where
  "find_code codes K m j i =
     (if i < K
      then (if code_m (codes ! i) = m \<and> code_j (codes ! i) = j then int i
            else find_code codes K m j (i + 1))
      else - 1)"
  by pat_completeness auto
termination
  by (relation "measure (\<lambda>(codes, K, m, j, i). K - i)") auto

declare find_code.simps [simp del]

lemma count_zeros_advances:
  "count_zeros payload nbits bit_index m = (bit_index', m', j') \<Longrightarrow>
     bit_index \<le> bit_index' \<and> (bit_index < nbits \<longrightarrow> bit_index < bit_index')"
proof (induction payload nbits bit_index m rule: count_zeros.induct)
  case (1 payload nbits bit_index m)
  show ?case
  proof (cases "bit_index < nbits \<and> payload_bit payload bit_index = 0")
    case True
    with "1.prems" have "count_zeros payload nbits (bit_index + 1) (m + 1) = (bit_index', m', j')"
      by (simp add: count_zeros.simps[of payload nbits bit_index m])
    with "1.IH" True show ?thesis by fastforce
  next
    case False
    with "1.prems" show ?thesis
      by (auto simp: count_zeros.simps[of payload nbits bit_index m] split: if_splits)
  qed
qed

lemma count_ones_advances:
  "count_ones payload nbits bit_index j = (bit_index', j') \<Longrightarrow> bit_index \<le> bit_index'"
proof (induction payload nbits bit_index j rule: count_ones.induct)
  case (1 payload nbits bit_index j)
  show ?case
  proof (cases "bit_index < nbits \<and> payload_bit payload bit_index = 1")
    case True
    with "1.prems" have "count_ones payload nbits (bit_index + 1) (j + 1) = (bit_index', j')"
      by (simp add: count_ones.simps[of payload nbits bit_index j])
    with "1.IH" True show ?thesis by fastforce
  next
    case False
    with "1.prems" show ?thesis
      by (auto simp: count_ones.simps[of payload nbits bit_index j] split: if_splits)
  qed
qed

text \<open>
  The main loop. \<open>out_text\<close> is the list of the bytes written to \<^verbatim>\<open>out_text\<close> so far, so
  \<^verbatim>\<open>out_pos\<close> is its length; the terminating zero byte the function writes at the end is
  not part of the list.
\<close>

function decode_loop ::
  "CodeEntry list \<Rightarrow> nat \<Rightarrow> u8 list \<Rightarrow> nat \<Rightarrow> int \<Rightarrow> nat \<Rightarrow> u8 list \<Rightarrow> u8 list \<times> diagnostic option" where
  "decode_loop codes K payload payload_bytes original_len bit_index out_text =
     (if int (length out_text) < original_len \<and> bit_index < payload_bytes * 8
      then (case count_zeros payload (payload_bytes * 8) bit_index 0 of
              (bit_index1, m, j) \<Rightarrow>
                if j = 0 then (out_text, None)
                else (case count_ones payload (payload_bytes * 8) bit_index1 j of
                        (bit_index2, j2) \<Rightarrow>
                          (let found = find_code codes K m j2 0
                           in if found < 0 then (out_text, Some (PairNotFound m j2))
                              else decode_loop codes K payload payload_bytes original_len
                                     bit_index2 (out_text @ [symbol (codes ! nat found)]))))
      else (out_text, None))"
  by pat_completeness auto
termination
proof (relation "measure (\<lambda>(codes, K, payload, payload_bytes, original_len, bit_index, out_text).
                    payload_bytes * 8 - bit_index)", goal_cases)
  case 1
  show ?case by simp
next
  case (2 codes K payload payload_bytes original_len bit_index out_text bit_index1 mj m j bit_index2 j2 found)
  from "2"(2,3) have "count_zeros payload (payload_bytes * 8) bit_index 0 = (bit_index1, m, j)"
    by simp
  from count_zeros_advances[OF this] "2"(1)
  have "bit_index < bit_index1" by simp
  moreover from count_ones_advances[OF "2"(5)[symmetric]]
  have "bit_index1 \<le> bit_index2" .
  ultimately show ?case using "2"(1) by auto
qed

declare decode_loop.simps [simp del]

text \<open>The table the decoder rebuilds from the header: the symbols
  \<^verbatim>\<open>comp_data[1 .. K]\<close>, then the same cycles as the encoder.\<close>

definition recover_table :: "u8 list \<Rightarrow> nat \<Rightarrow> CodeEntry list" where
  "recover_table comp_data K =
     (let codes = map (\<lambda>i. \<lparr>symbol = comp_data ! (1 + i), freq = 0,
                             code_m = 0, code_j = 0\<rparr>) [0..<K]
      in generate_cycles_for_codes codes K)"

text \<open>\<open>comp_size\<close> is the length of \<open>comp_data\<close>.\<close>

definition decompress_cycle_based :: "u8 list \<Rightarrow> int \<Rightarrow> u8 list \<times> diagnostic option" where
  "decompress_cycle_based comp_data original_len =
     (let comp_size = length comp_data
      in if comp_size \<le> 0 then ([], None)
         else (let K = unat (comp_data ! 0)
               in if K \<le> 0 \<or> comp_size < 1 + K then ([], Some InvalidCompressedData)
                  else (let codes = recover_table comp_data K;
                            payload = drop (1 + K) comp_data;
                            payload_bytes = comp_size - (1 + K)
                        in decode_loop codes K payload payload_bytes original_len 0 [])))"

section \<open>Notions used to state and prove the properties\<close>

text \<open>The pairs \<open>(m, j)\<close> of a table, in rank order.\<close>

definition entry_pairs :: "CodeEntry list \<Rightarrow> (nat \<times> nat) list" where
  "entry_pairs codes = map (\<lambda>e. (code_m e, code_j e)) codes"

text \<open>The canonical enumeration of the specification: the group of total length \<open>L\<close> is
  \<open>(L-1, 1), (L-2, 2), ..., (1, L-1)\<close>.\<close>

definition canonical_group :: "nat \<Rightarrow> (nat \<times> nat) list" where
  "canonical_group L = map (\<lambda>m. (m, L - m)) (rev [1..<L])"

text \<open>The first \<open>K\<close> pairs of the groups for \<open>L = 2, 3, 4, ...\<close>; the groups up to
  \<open>L = K + 1\<close> hold at least \<open>K\<close> pairs.\<close>

definition canonical_enumeration :: "nat \<Rightarrow> (nat \<times> nat) list" where
  "canonical_enumeration K = take K (concat (map canonical_group [2..<K + 2]))"

text \<open>All groups of total length below \<open>n\<close>.\<close>

definition groups_below :: "nat \<Rightarrow> (nat \<times> nat) list" where
  "groups_below n = concat (map canonical_group [2..<n])"

text \<open>Bit \<open>i\<close> of a byte sequence, most significant bit of each byte first.\<close>

definition stream_bit :: "u8 list \<Rightarrow> nat \<Rightarrow> bool" where
  "stream_bit bytes i = bit (bytes ! (i div 8)) (7 - i mod 8)"



text \<open>The cycle code of a pair: \<open>m\<close> zero bits, then \<open>j\<close> one bits.\<close>

definition code_bits :: "nat \<times> nat \<Rightarrow> bool list" where
  "code_bits p = replicate (fst p) False @ replicate (snd p) True"

text \<open>The concatenated codes of a sequence of ranks, for the canonical table of \<open>K\<close> entries.\<close>

definition rank_bits :: "nat \<Rightarrow> nat list \<Rightarrow> bool list" where
  "rank_bits K rs = concat (map (\<lambda>r. code_bits (canonical_enumeration K ! r)) rs)"

text \<open>The string the program sees at \<^verbatim>\<open>text\<close>: the bytes before the first zero byte.\<close>

definition c_string :: "u8 list \<Rightarrow> u8 list" where
  "c_string text = takeWhile (\<lambda>c. c \<noteq> 0) text"

text \<open>The order \<^verbatim>\<open>qsort\<close> sorts by: \<open>compare_codeentry\<close> returns a value \<open>\<le> 0\<close>.\<close>

definition entry_le :: "CodeEntry \<Rightarrow> CodeEntry \<Rightarrow> bool" where
  "entry_le a b \<longleftrightarrow> compare_codeentry a b \<le> 0"

text \<open>The states in which a run of the decoder's main loop reaches the loop head:
  the bit index and the output written so far.\<close>

inductive loop_state ::
  "CodeEntry list \<Rightarrow> nat \<Rightarrow> u8 list \<Rightarrow> nat \<Rightarrow> int \<Rightarrow> nat \<Rightarrow> u8 list \<Rightarrow> bool"
  for codes K payload payload_bytes original_len
where
  loop_entry: "loop_state codes K payload payload_bytes original_len 0 []"
| loop_iteration:
    "loop_state codes K payload payload_bytes original_len bit_index out_text \<Longrightarrow>
     int (length out_text) < original_len \<Longrightarrow> bit_index < payload_bytes * 8 \<Longrightarrow>
     count_zeros payload (payload_bytes * 8) bit_index 0 = (bit_index1, m, j) \<Longrightarrow> j \<noteq> 0 \<Longrightarrow>
     count_ones payload (payload_bytes * 8) bit_index1 j = (bit_index2, j2) \<Longrightarrow>
     find_code codes K m j2 0 = found \<Longrightarrow> 0 \<le> found \<Longrightarrow>
     loop_state codes K payload payload_bytes original_len bit_index2
       (out_text @ [symbol (codes ! nat found)])"


section \<open>The canonical enumeration and the table builder\<close>

lemma length_canonical_group [simp]: "length (canonical_group L) = L - 1"
  by (simp add: canonical_group_def)

lemma nth_canonical_group:
  "k < L - 1 \<Longrightarrow> canonical_group L ! k = (L - 1 - k, k + 1)"
  by (simp add: canonical_group_def rev_nth)

lemma groups_below_Suc:
  "2 \<le> n \<Longrightarrow> groups_below (Suc n) = groups_below n @ canonical_group n"
  by (simp add: groups_below_def)

lemma groups_below_small [simp]: "n \<le> 2 \<Longrightarrow> groups_below n = []"
  by (simp add: groups_below_def)

lemma groups_below_append:
  "2 \<le> a \<Longrightarrow> groups_below (a + d) = groups_below a @ concat (map canonical_group [a..<a + d])"
  using upt_add_eq_append[of 2 a d] by (simp add: groups_below_def)

lemma length_groups_below_Suc:
  "2 \<le> n \<Longrightarrow> length (groups_below (Suc n)) = length (groups_below n) + (n - 1)"
  by (simp add: groups_below_Suc)

lemma length_groups_below_ge: "n - 2 \<le> length (groups_below n)"
proof (induction n)
  case 0
  show ?case by simp
next
  case (Suc n)
  show ?case
  proof (cases "2 \<le> n")
    case True
    with Suc show ?thesis by (simp add: length_groups_below_Suc)
  next
    case False
    then show ?thesis by simp
  qed
qed

lemma groups_below_nth_mono:
  assumes "2 \<le> a" "a \<le> b" "i < length (groups_below a)"
  shows "groups_below b ! i = groups_below a ! i"
proof -
  from assms(2) obtain d where "b = a + d" by (auto simp: le_iff_add)
  with assms(1,3) show ?thesis by (simp add: groups_below_append nth_append)
qed

lemma groups_below_elems:
  "(m, j) \<in> set (groups_below n) \<Longrightarrow> 1 \<le> m \<and> 1 \<le> j \<and> m + j < n"
proof (induction n)
  case 0
  then show ?case by simp
next
  case (Suc n)
  show ?case
  proof (cases "2 \<le> n")
    case True
    with Suc show ?thesis
      by (auto simp: groups_below_Suc canonical_group_def)
  next
    case False
    with Suc.prems show ?thesis by simp
  qed
qed

lemma distinct_canonical_group: "distinct (canonical_group L)"
  by (simp add: canonical_group_def distinct_map inj_on_def)

lemma distinct_groups_below: "distinct (groups_below n)"
proof (induction n)
  case 0
  show ?case by simp
next
  case (Suc n)
  show ?case
  proof (cases "2 \<le> n")
    case True
    have "set (groups_below n) \<inter> set (canonical_group n) = {}"
      using groups_below_elems[of _ _ n] by (fastforce simp: canonical_group_def)
    with Suc True show ?thesis
      by (simp add: groups_below_Suc distinct_canonical_group)
  next
    case False
    then show ?thesis by simp
  qed
qed

lemma sorted_groups_below: "sorted (map (\<lambda>(m, j). m + j) (groups_below n))"
proof (induction n)
  case 0
  show ?case by simp
next
  case (Suc n)
  show ?case
  proof (cases "2 \<le> n")
    case True
    have a: "map (\<lambda>(m, j). m + j) (canonical_group n) = replicate (n - 1) n"
      by (auto simp: canonical_group_def map_replicate_const[symmetric] simp del: map_replicate_const intro!: nth_equalityI simp: rev_nth)
    have b: "\<forall>x \<in> set (map (\<lambda>(m, j). m + j) (groups_below n)). x \<le> n"
      using groups_below_elems[of _ _ n] by fastforce
    from Suc True a b show ?thesis
      by (auto simp add: groups_below_Suc sorted_append)
  next
    case False
    then show ?thesis by simp
  qed
qed

lemma canonical_enumeration_eq: "canonical_enumeration K = take K (groups_below (K + 2))"
  by (simp add: canonical_enumeration_def groups_below_def)

lemma length_canonical_enumeration [simp]: "length (canonical_enumeration K) = K"
  using length_groups_below_ge[of "K + 2"] by (simp add: canonical_enumeration_eq)

lemma gen_inner_spec:
  "gen_inner codes K L m count = (codes', count') \<Longrightarrow> K \<le> length codes \<Longrightarrow>
     count' = (if count < K then min K (count + m) else count) \<and>
     length codes' = length codes \<and>
     (\<forall>i < length codes. codes' ! i =
        (if count \<le> i \<and> i < count'
         then (codes ! i)\<lparr>code_m := m - (i - count), code_j := L - (m - (i - count))\<rparr>
         else codes ! i))"
proof (induction codes K L m count arbitrary: codes' count' rule: gen_inner.induct)
  case (1 codes K L m count)
  show ?case
  proof (cases "m \<ge> 1 \<and> count < K")
    case True
    let ?c1 = "codes[count := (codes ! count)\<lparr>code_m := m, code_j := L - m\<rparr>]"
    from True "1.prems" have run: "gen_inner ?c1 K L (m - 1) (count + 1) = (codes', count')"
      by (simp add: gen_inner.simps[of codes K L m count] Let_def)
    from "1.prems" have len: "K \<le> length ?c1" by simp
    note ih = "1.IH"[OF True refl run len]
    from ih True have c: "count' = min K (count + m)" by (auto simp: min_def)
    from ih have l: "length codes' = length codes" by simp
    have "codes' ! i =
        (if count \<le> i \<and> i < count'
         then (codes ! i)\<lparr>code_m := m - (i - count), code_j := L - (m - (i - count))\<rparr>
         else codes ! i)" if "i < length codes" for i
    proof -
      from ih that have e: "codes' ! i =
        (if count + 1 \<le> i \<and> i < count'
         then (?c1 ! i)\<lparr>code_m := m - 1 - (i - (count + 1)), code_j := L - (m - 1 - (i - (count + 1)))\<rparr>
         else ?c1 ! i)" by simp
      show ?thesis
      proof (cases "i = count")
        case True
        with e that c \<open>m \<ge> 1 \<and> count < K\<close> show ?thesis by simp
      next
        case False
        have "m - 1 - (i - (count + 1)) = m - (i - count)" if "count + 1 \<le> i"
          using that by arith
        with False e that show ?thesis by auto
      qed
    qed
    with c l True show ?thesis by simp
  next
    case False
    with "1.prems" show ?thesis
      by (auto simp: gen_inner.simps[of codes K L m count] min_def)
  qed
qed

lemma gen_outer_spec:
  "2 \<le> L \<Longrightarrow> length codes = K \<Longrightarrow> count = min K (length (groups_below L)) \<Longrightarrow>
   (\<forall>i < count. entry_pairs codes ! i = groups_below L ! i) \<Longrightarrow>
   length (gen_outer codes K L count) = K \<and>
   map symbol (gen_outer codes K L count) = map symbol codes \<and>
   map freq (gen_outer codes K L count) = map freq codes \<and>
   (\<exists>L' \<ge> L. K \<le> length (groups_below L') \<and>
      (\<forall>i < K. entry_pairs (gen_outer codes K L count) ! i = groups_below L' ! i))"
proof (induction codes K L count rule: gen_outer.induct)
  case (1 codes K L count)
  show ?case
  proof (cases "count < K")
    case False
    with "1.prems"(3) have "K \<le> length (groups_below L)" "count = K" by arith+
    moreover have "gen_outer codes K L count = codes"
      using False by (subst gen_outer.simps) simp
    ultimately show ?thesis using "1.prems" by auto
  next
    case True
    obtain codes' count' where run: "gen_inner codes K L (L - 1) count = (codes', count')"
      by (cases "gen_inner codes K L (L - 1) count")
    from "1.prems" have "K \<le> length codes" by simp
    note sp = gen_inner_spec[OF run this]
    from True "1.prems" have cnt: "count = length (groups_below L)" by (auto simp: min_def)
    from sp True have c': "count' = min K (count + (L - 1))" by simp
    with cnt "1.prems"(1) have c'': "count' = min K (length (groups_below (L + 1)))"
      by (simp add: length_groups_below_Suc)
    from sp "1.prems" have len': "length codes' = K" by simp
    have pw: "entry_pairs codes' ! i = groups_below (L + 1) ! i" if "i < count'" for i
    proof -
      from that c' have iK: "i < K" by simp
      with sp "1.prems"(2) have e: "codes' ! i =
        (if count \<le> i \<and> i < count'
         then (codes ! i)\<lparr>code_m := L - 1 - (i - count), code_j := L - (L - 1 - (i - count))\<rparr>
         else codes ! i)" by simp
      show ?thesis
      proof (cases "i < count")
        case True
        with e iK len' "1.prems" cnt show ?thesis
          by (simp add: entry_pairs_def groups_below_Suc nth_append)
      next
        case False
        with that c' have k: "i - count < L - 1" by arith
        from False e that iK len' cnt "1.prems"(1) k show ?thesis
          by (simp add: entry_pairs_def groups_below_Suc nth_append nth_canonical_group)
      qed
    qed
    have "2 \<le> L + 1" using "1.prems"(1) by simp
    from "1.IH"[OF True run[symmetric] this len' c''] pw
    have ih: "length (gen_outer codes' K (L + 1) count') = K \<and>
       map symbol (gen_outer codes' K (L + 1) count') = map symbol codes' \<and>
       map freq (gen_outer codes' K (L + 1) count') = map freq codes' \<and>
       (\<exists>L' \<ge> L + 1. K \<le> length (groups_below L') \<and>
          (\<forall>i < K. entry_pairs (gen_outer codes' K (L + 1) count') ! i = groups_below L' ! i))"
      by blast
    have unf: "gen_outer codes K L count = gen_outer codes' K (L + 1) count'"
      using True run by (subst gen_outer.simps) simp
    have sy: "map symbol codes' = map symbol codes" "map freq codes' = map freq codes"
      using sp "1.prems"(2) by (auto intro!: nth_equalityI)
    from ih obtain L' where "L' \<ge> L + 1" "K \<le> length (groups_below L')"
      "\<forall>i < K. entry_pairs (gen_outer codes' K (L + 1) count') ! i = groups_below L' ! i"
      by blast
    then have "\<exists>L' \<ge> L. K \<le> length (groups_below L') \<and>
      (\<forall>i < K. entry_pairs (gen_outer codes K L count) ! i = groups_below L' ! i)"
      unfolding unf by (intro exI[of _ L']) simp
    with ih sy unf show ?thesis by simp
  qed
qed

lemma generate_cycles_length [simp]:
  "length codes = K \<Longrightarrow> length (generate_cycles_for_codes codes K) = K"
  using gen_outer_spec[of 2 codes K 0] by (simp add: generate_cycles_for_codes_def)

lemma generate_cycles_symbol [simp]:
  "length codes = K \<Longrightarrow> map symbol (generate_cycles_for_codes codes K) = map symbol codes"
  using gen_outer_spec[of 2 codes K 0] by (simp add: generate_cycles_for_codes_def)

lemma generate_cycles_freq [simp]:
  "length codes = K \<Longrightarrow> map freq (generate_cycles_for_codes codes K) = map freq codes"
  using gen_outer_spec[of 2 codes K 0] by (simp add: generate_cycles_for_codes_def)

lemma generate_cycles_pairs:
  assumes "length codes = K"
  shows "entry_pairs (generate_cycles_for_codes codes K) = canonical_enumeration K"
proof (rule nth_equalityI)
  show "length (entry_pairs (generate_cycles_for_codes codes K)) = length (canonical_enumeration K)"
    using assms by (simp add: entry_pairs_def)
next
  fix i assume "i < length (entry_pairs (generate_cycles_for_codes codes K))"
  with assms have iK: "i < K" by (simp add: entry_pairs_def)
  from gen_outer_spec[of 2 codes K 0] assms obtain L' where L': "2 \<le> L'"
    "K \<le> length (groups_below L')"
    "\<forall>i < K. entry_pairs (generate_cycles_for_codes codes K) ! i = groups_below L' ! i"
    by (auto simp: generate_cycles_for_codes_def)
  have "groups_below L' ! i = groups_below (K + 2) ! i"
  proof (cases "L' \<le> K + 2")
    case True
    from groups_below_nth_mono[OF L'(1) True] iK L'(2) show ?thesis by simp
  next
    case False
    have "i < length (groups_below (K + 2))"
      using length_groups_below_ge[of "K + 2"] iK by simp
    from groups_below_nth_mono[OF _ _ this, of L'] False show ?thesis by simp
  qed
  with L'(3) iK show "entry_pairs (generate_cycles_for_codes codes K) ! i = canonical_enumeration K ! i"
    by (simp add: canonical_enumeration_eq)
qed

section \<open>The bit writer\<close>

lemma payload_bit_eq: "payload_bit payload i = (if stream_bit payload i then 1 else 0)"
  by (simp add: payload_bit_def stream_bit_def bit_iff_odd_drop_bit and_one_eq mod_2_eq_odd)

lemma payload_bit_zero [simp]: "payload_bit payload i = 0 \<longleftrightarrow> \<not> stream_bit payload i"
  by (simp add: payload_bit_eq)

lemma payload_bit_one [simp]: "payload_bit payload i = 1 \<longleftrightarrow> stream_bit payload i"
  by (simp add: payload_bit_eq)





lemma bit_zero_u8 [simp]: "\<not> bit (0 :: u8) n"
  by simp










section \<open>The scanning loops of the decoder\<close>





lemma find_code_range:
  "find_code codes K m j i = - 1 \<or>
   (\<exists>r. find_code codes K m j i = int r \<and> i \<le> r \<and> r < K \<and>
        code_m (codes ! r) = m \<and> code_j (codes ! r) = j)"
proof (induction codes K m j i rule: find_code.induct)
  case (1 codes K m j i)
  show ?case
  proof (cases "i < K \<and> \<not> (code_m (codes ! i) = m \<and> code_j (codes ! i) = j)")
    case True
    then have "find_code codes K m j i = find_code codes K m j (i + 1)"
      by (subst find_code.simps) auto
    with "1.IH" True show ?thesis by fastforce
  next
    case False
    show ?thesis
    proof (cases "i < K")
      case True
      with False have "find_code codes K m j i = int i" by (subst find_code.simps) auto
      with True False show ?thesis by auto
    next
      case False
      then have "find_code codes K m j i = - 1" by (subst find_code.simps) simp
      then show ?thesis by simp
    qed
  qed
qed

lemma find_code_none:
  "find_code codes K m j i = - 1 \<longleftrightarrow>
   (\<forall>r. i \<le> r \<and> r < K \<longrightarrow> \<not> (code_m (codes ! r) = m \<and> code_j (codes ! r) = j))"
proof (induction codes K m j i rule: find_code.induct)
  case (1 codes K m j i)
  show ?case
  proof (cases "i < K")
    case False
    then show ?thesis by (subst find_code.simps) simp
  next
    case True
    show ?thesis
    proof (cases "code_m (codes ! i) = m \<and> code_j (codes ! i) = j")
      case hit: True
      with True have "find_code codes K m j i = int i" by (subst find_code.simps) simp
      with hit True show ?thesis by auto
    next
      case miss: False
      with True have "find_code codes K m j i = find_code codes K m j (i + 1)"
        by (subst find_code.simps) auto
      moreover have "(\<forall>r. i \<le> r \<and> r < K \<longrightarrow> \<not> (code_m (codes ! r) = m \<and> code_j (codes ! r) = j)) \<longleftrightarrow>
         (\<forall>r. i + 1 \<le> r \<and> r < K \<longrightarrow> \<not> (code_m (codes ! r) = m \<and> code_j (codes ! r) = j))"
      proof (intro iffI allI impI)
        fix r
        assume "\<forall>r. i + 1 \<le> r \<and> r < K \<longrightarrow> \<not> (code_m (codes ! r) = m \<and> code_j (codes ! r) = j)"
          and "i \<le> r \<and> r < K"
        with miss show "\<not> (code_m (codes ! r) = m \<and> code_j (codes ! r) = j)"
          by (cases "r = i") auto
      qed auto
      ultimately show ?thesis using "1.IH"[OF True miss] by simp
    qed
  qed
qed

section \<open>Decoding a stream of codes\<close>

lemma rank_bits_Nil [simp]: "rank_bits K [] = []"
  by (simp add: rank_bits_def)



lemma length_code_bits [simp]: "length (code_bits (m, j)) = m + j"
  by (simp add: code_bits_def)

lemma canonical_enumeration_pos:
  assumes "r < K" "canonical_enumeration K ! r = (m, j)"
  shows "1 \<le> m \<and> 1 \<le> j"
proof -
  from assms have "(m, j) \<in> set (canonical_enumeration K)"
    by (metis length_canonical_enumeration nth_mem)
  then have "(m, j) \<in> set (groups_below (K + 2))"
    by (auto simp: canonical_enumeration_eq dest: in_set_takeD)
  then show ?thesis using groups_below_elems by blast
qed

lemma distinct_canonical_enumeration: "distinct (canonical_enumeration K)"
  by (simp add: canonical_enumeration_eq distinct_groups_below)

lemma sorted_canonical_enumeration:
  "sorted (map (\<lambda>(m, j). m + j) (canonical_enumeration K))"
  using sorted_groups_below[of "K + 2"]
  by (simp add: canonical_enumeration_eq take_map[symmetric] sorted_wrt_take)





section \<open>Frequencies and the symbol table\<close>

lemma take_strlen: "take (strlen text) text = c_string text"
  by (simp add: strlen_def c_string_def takeWhile_eq_take[symmetric])





lemma unat_u8_less [simp]: "unat (c :: u8) < 256"
  using unsigned_less[of c, where ?'a = nat] by simp


lemma fold_count:
  "length ft = 256 \<Longrightarrow>
   length (fold (\<lambda>c ft. ft[unat c := ft ! unat c + 1]) cs ft) = 256 \<and>
   fold (\<lambda>c ft. ft[unat c := ft ! unat c + 1]) cs ft ! unat (c :: u8) = ft ! unat c + count_list cs c"
proof (induction cs arbitrary: ft)
  case Nil
  then show ?case by simp
next
  case (Cons a cs)
  let ?ft = "ft[unat a := ft ! unat a + 1]"
  from Cons.prems have "length ?ft = 256" by simp
  from Cons.IH[OF this] Cons.prems show ?case
    by (auto simp: nth_list_update word_unat_eq_iff)
qed

lemma freq_table_length [simp]:
  "length (count_character_frequency text (replicate ALPHABET_SIZE 0)) = 256"
  using fold_count[of "replicate 256 0" "c_string text"]
  by (simp add: count_character_frequency_def ALPHABET_SIZE_def take_strlen)








section \<open>Sorting\<close>

lemma entry_le_iff:
  "entry_le a b \<longleftrightarrow> freq a > freq b \<or> (freq a = freq b \<and> symbol a \<le> symbol b)"
  by (auto simp: entry_le_def compare_codeentry_def)



lemma entry_le_antisym: "entry_le a b \<Longrightarrow> entry_le b a \<Longrightarrow> symbol a = symbol b"
  by (auto simp: entry_le_iff)

lemma set_insert_entry [simp]: "set (insert_entry e xs) = insert e (set xs)"
  by (induction xs) auto

lemma length_insert_entry [simp]: "length (insert_entry e xs) = Suc (length xs)"
  by (induction xs) auto



lemma qsort_entries_Nil [simp]: "qsort_entries [] = []"
  by (simp add: qsort_entries_def)

lemma qsort_entries_Cons [simp]: "qsort_entries (x # xs) = insert_entry x (qsort_entries xs)"
  by (simp add: qsort_entries_def)


lemma length_qsort_entries [simp]: "length (qsort_entries xs) = length xs"
  by (induction xs) simp_all



text \<open>Entries with pairwise different symbols have one sorted arrangement only, so the
  result of \<open>qsort\<close> does not depend on the algorithm of the C library.\<close>

lemma sorted_entries_unique:
  "sorted_wrt entry_le xs \<Longrightarrow> sorted_wrt entry_le ys \<Longrightarrow> set xs = set ys \<Longrightarrow>
   distinct (map symbol xs) \<Longrightarrow> distinct (map symbol ys) \<Longrightarrow> xs = ys"
proof (induction xs arbitrary: ys)
  case Nil
  then show ?case by simp
next
  case (Cons x xs)
  from Cons.prems(3) have "ys \<noteq> []" by auto
  then obtain y ys' where ys: "ys = y # ys'" by (cases ys) auto
  have sx: "\<forall>z \<in> set xs. entry_le x z" "sorted_wrt entry_le xs"
    using Cons.prems(1) by simp_all
  have sy: "\<forall>z \<in> set ys'. entry_le y z" "sorted_wrt entry_le ys'"
    using Cons.prems(2) unfolding ys by simp_all
  have dx: "symbol x \<notin> symbol ` set xs" "distinct (map symbol xs)"
    using Cons.prems(4) by simp_all
  have dy: "symbol y \<notin> symbol ` set ys'" "distinct (map symbol ys')"
    using Cons.prems(5) unfolding ys by simp_all
  have sets: "insert x (set xs) = insert y (set ys')"
    using Cons.prems(3) unfolding ys by simp
  have xy: "x = y"
  proof (rule ccontr)
    assume ne: "x \<noteq> y"
    have "x \<in> insert y (set ys')" unfolding sets[symmetric] by simp
    moreover have "y \<in> insert x (set xs)" unfolding sets by simp
    ultimately have mem: "x \<in> set ys'" "y \<in> set xs" using ne by simp_all
    with sx sy have "entry_le y x" "entry_le x y" by blast+
    then have "symbol y = symbol x" by (rule entry_le_antisym)
    with dy(1) mem(1) show False by (metis imageI)
  qed
  have "x \<notin> set xs" using dx(1) by blast
  moreover have "y \<notin> set ys'" using dy(1) by blast
  ultimately have "set xs = set ys'" using sets unfolding xy by (simp add: insert_ident)
  from Cons.IH[OF sx(2) sy(2) this dx(2) dy(2)] xy ys show ?case by simp
qed

subsection \<open>The look-up table\<close>



subsection \<open>The payload loop\<close>



section \<open>Encoder and decoder together\<close>

lemma generate_cycles_nth:
  assumes "length codes = K" "r < K"
  shows "(code_m (generate_cycles_for_codes codes K ! r),
          code_j (generate_cycles_for_codes codes K ! r)) = canonical_enumeration K ! r"
    and "symbol (generate_cycles_for_codes codes K ! r) = symbol (codes ! r)"
    and "freq (generate_cycles_for_codes codes K ! r) = freq (codes ! r)"
proof -
  let ?G = "generate_cycles_for_codes codes K"
  have l: "r < length ?G" "r < length codes" using assms by simp_all
  from assms have "entry_pairs ?G ! r = canonical_enumeration K ! r"
    by (simp add: generate_cycles_pairs)
  with l show "(code_m (?G ! r), code_j (?G ! r)) = canonical_enumeration K ! r"
    by (simp add: entry_pairs_def)
  have "symbol (?G ! r) = map symbol ?G ! r" using l(1) by (simp only: nth_map)
  also have "\<dots> = map symbol codes ! r" by (simp only: generate_cycles_symbol[OF assms(1)])
  also have "\<dots> = symbol (codes ! r)" using l(2) by (simp only: nth_map)
  finally show "symbol (?G ! r) = symbol (codes ! r)" .
  have "freq (?G ! r) = map freq ?G ! r" using l(1) by (simp only: nth_map)
  also have "\<dots> = map freq codes ! r" by (simp only: generate_cycles_freq[OF assms(1)])
  also have "\<dots> = freq (codes ! r)" using l(2) by (simp only: nth_map)
  finally show "freq (?G ! r) = freq (codes ! r)" .
qed









section \<open>The properties of the specification\<close>

subsection \<open>The worked example and the empty input\<close>

text \<open>
  Claim C5. Compressing the message \<open>aab\<close> gives exactly the four bytes
  \<open>0x02, 0x61, 0x62, 0x52\<close>: \<open>K = 2\<close>, the symbols \<open>a\<close> and \<open>b\<close>, and the payload byte
  \<open>0x52\<close> (the bits \<open>01010010\<close>). Decompressing that buffer with original length 3
  returns \<open>aab\<close>, with nothing printed on \<^verbatim>\<open>stderr\<close>.
\<close>

theorem example_aab:
  "compress_cycle_based [0x61, 0x61, 0x62] = Inr [0x02, 0x61, 0x62, 0x52] \<and>
   decompress_cycle_based [0x02, 0x61, 0x62, 0x52] 3 = ([0x61, 0x61, 0x62], None)"
  by code_simp

text \<open>
  Claim C9. Compressing the empty message returns a buffer of length zero, and
  decompressing a buffer of length zero with original length 0 returns the empty
  message; neither run ends in an error.
\<close>

theorem empty_input:
  "compress_cycle_based [] = Inr [] \<and> decompress_cycle_based [] 0 = ([], None)"
  by code_simp

subsection \<open>Round trip\<close>




subsection \<open>The size of the alphabet\<close>





subsection \<open>The code table\<close>

text \<open>
  Claim C4. For every \<open>K\<close> from 1 to 255 the table builder gives the ranks
  \<open>0 .. K-1\<close> exactly the first \<open>K\<close> pairs of the canonical enumeration (for
  \<open>L = 2, 3, 4, ...\<close> the pairs \<open>(L-1, 1), (L-2, 2), ..., (1, L-1)\<close>). Every pair has
  \<open>m \<ge> 1\<close> and \<open>j \<ge> 1\<close>, the \<open>K\<close> pairs are pairwise different, and the symbols
  of the table are left as they were.
\<close>

theorem code_table_canonical:
  assumes "1 \<le> K" "K \<le> 255" "length codes = K"
  shows "entry_pairs (generate_cycles_for_codes codes K) = canonical_enumeration K \<and>
         (\<forall>r < K. 1 \<le> code_m (generate_cycles_for_codes codes K ! r) \<and>
                  1 \<le> code_j (generate_cycles_for_codes codes K ! r)) \<and>
         distinct (entry_pairs (generate_cycles_for_codes codes K)) \<and>
         map symbol (generate_cycles_for_codes codes K) = map symbol codes"
proof -
  have "1 \<le> code_m (generate_cycles_for_codes codes K ! r) \<and>
        1 \<le> code_j (generate_cycles_for_codes codes K ! r)" if "r < K" for r
    using canonical_enumeration_pos[OF that, of "code_m (generate_cycles_for_codes codes K ! r)"
        "code_j (generate_cycles_for_codes codes K ! r)"]
      generate_cycles_nth(1)[OF assms(3) that] by simp
  then show ?thesis
    using assms(3) by (simp add: generate_cycles_pairs distinct_canonical_enumeration)
qed

text \<open>The table for \<open>K = 4\<close>.\<close>

theorem code_table_canonical_witness:
  "(1 :: nat) \<le> 4 \<and> (4 :: nat) \<le> 255 \<and>
   length (replicate 4 \<lparr>symbol = 0, freq = 0, code_m = 0, code_j = 0\<rparr>) = 4 \<and>
   entry_pairs (generate_cycles_for_codes (replicate 4 \<lparr>symbol = 0, freq = 0, code_m = 0, code_j = 0\<rparr>) 4)
     = canonical_enumeration 4 \<and>
   canonical_enumeration 4 = [(1, 1), (2, 1), (1, 2), (3, 1)]"
proof -
  have c: "canonical_enumeration 4 = [(1, 1), (2, 1), (1, 2), (3, 1)]" by code_simp
  from code_table_canonical[of 4 "replicate 4 \<lparr>symbol = 0, freq = 0, code_m = 0, code_j = 0\<rparr>"] c
  show ?thesis by simp
qed

text \<open>
  Claim C7. In every code table built for \<open>K\<close> from 1 to 255, the code length
  \<open>m + j\<close> of rank \<open>r\<close> is at most the code length of every later rank \<open>s\<close>.
\<close>

theorem code_length_nondecreasing:
  assumes "1 \<le> K" "K \<le> 255" "length codes = K" "r \<le> s" "s < K"
  shows "code_m (generate_cycles_for_codes codes K ! r) + code_j (generate_cycles_for_codes codes K ! r)
       \<le> code_m (generate_cycles_for_codes codes K ! s) + code_j (generate_cycles_for_codes codes K ! s)"
proof -
  let ?len = "map (\<lambda>(m, j). m + j) (canonical_enumeration K)"
  from assms have rK: "r < K" by simp
  have "?len ! r \<le> ?len ! s"
    using sorted_canonical_enumeration[of K] assms(4,5)
    by (simp add: sorted_iff_nth_mono del: nth_map)
  moreover have "?len ! q = code_m (generate_cycles_for_codes codes K ! q) +
      code_j (generate_cycles_for_codes codes K ! q)" if "q < K" for q
    using generate_cycles_nth(1)[OF assms(3) that, symmetric] that by simp
  ultimately show ?thesis using rK assms(5) by simp
qed

text \<open>Ranks 2 and 3 of the table for \<open>K = 4\<close>.\<close>

theorem code_length_nondecreasing_witness:
  "(1 :: nat) \<le> 4 \<and> (4 :: nat) \<le> 255 \<and>
   length (replicate 4 \<lparr>symbol = 0, freq = 0, code_m = 0, code_j = 0\<rparr>) = 4 \<and>
   (2 :: nat) \<le> 3 \<and> (3 :: nat) < 4 \<and>
   code_m (generate_cycles_for_codes (replicate 4 \<lparr>symbol = 0, freq = 0, code_m = 0, code_j = 0\<rparr>) 4 ! 2) +
   code_j (generate_cycles_for_codes (replicate 4 \<lparr>symbol = 0, freq = 0, code_m = 0, code_j = 0\<rparr>) 4 ! 2)
   \<le> code_m (generate_cycles_for_codes (replicate 4 \<lparr>symbol = 0, freq = 0, code_m = 0, code_j = 0\<rparr>) 4 ! 3) +
     code_j (generate_cycles_for_codes (replicate 4 \<lparr>symbol = 0, freq = 0, code_m = 0, code_j = 0\<rparr>) 4 ! 3)"
  using code_length_nondecreasing[of 4 "replicate 4 \<lparr>symbol = 0, freq = 0, code_m = 0, code_j = 0\<rparr>" 2 3]
  by simp

subsection \<open>Corrupt streams\<close>

lemma loop_state_run:
  "loop_state codes K payload payload_bytes original_len bit_index out_text \<Longrightarrow>
   decode_loop codes K payload payload_bytes original_len 0 [] =
   decode_loop codes K payload payload_bytes original_len bit_index out_text"
proof (induction rule: loop_state.induct)
  case loop_entry
  show ?case by simp
next
  case (loop_iteration bit_index out_text bit_index1 m j bit_index2 j2 found)
  have "decode_loop codes K payload payload_bytes original_len bit_index out_text =
        decode_loop codes K payload payload_bytes original_len bit_index2
          (out_text @ [symbol (codes ! nat found)])"
    using loop_iteration.hyps(2-8)
    by (subst decode_loop.simps) (simp add: Let_def)
  with loop_iteration.IH show ?case by simp
qed

lemma decode_loop_pair_not_found:
  assumes "int (length out_text) < original_len" "bit_index < payload_bytes * 8"
    and "count_zeros payload (payload_bytes * 8) bit_index 0 = (bit_index1, m, j)" "j \<noteq> 0"
    and "count_ones payload (payload_bytes * 8) bit_index1 j = (bit_index2, j2)"
    and "\<forall>r < K. \<not> (code_m (codes ! r) = m \<and> code_j (codes ! r) = j2)"
  shows "decode_loop codes K payload payload_bytes original_len bit_index out_text =
         (out_text, Some (PairNotFound m j2))"
proof -
  from assms(6) have "find_code codes K m j2 0 = - 1" by (simp add: find_code_none)
  with assms(1-5) show ?thesis by (subst decode_loop.simps) (simp add: Let_def)
qed

lemma decode_loop_length:
  "length (fst (decode_loop codes K payload payload_bytes original_len bit_index out_text))
     \<le> max (length out_text) (nat original_len)"
proof (induction codes K payload payload_bytes original_len bit_index out_text
    rule: decode_loop.induct)
  case (1 codes K payload payload_bytes original_len bit_index out_text)
  show ?case
  proof (cases "int (length out_text) < original_len \<and> bit_index < payload_bytes * 8")
    case False
    then show ?thesis by (subst decode_loop.simps) auto
  next
    case True
    obtain bit_index1 m j where cz:
      "count_zeros payload (payload_bytes * 8) bit_index 0 = (bit_index1, m, j)"
      by (cases "count_zeros payload (payload_bytes * 8) bit_index 0")
    obtain bit_index2 j2 where co:
      "count_ones payload (payload_bytes * 8) bit_index1 j = (bit_index2, j2)"
      by (cases "count_ones payload (payload_bytes * 8) bit_index1 j")
    show ?thesis
    proof (cases "j = 0 \<or> find_code codes K m j2 0 < 0")
      case stop: True
      with True cz co have "fst (decode_loop codes K payload payload_bytes original_len bit_index out_text)
          = out_text"
        by (subst decode_loop.simps) (auto simp: Let_def)
      then show ?thesis by simp
    next
      case go: False
      with True cz co have e: "decode_loop codes K payload payload_bytes original_len bit_index out_text
          = decode_loop codes K payload payload_bytes original_len bit_index2
              (out_text @ [symbol (codes ! nat (find_code codes K m j2 0))])"
        by (subst decode_loop.simps) (simp add: Let_def)
      from go have "j \<noteq> 0" "\<not> find_code codes K m j2 0 < 0" by simp_all
      from "1.IH"[OF True cz[symmetric] refl this(1) co[symmetric] refl this(2)]
      have "length (fst (decode_loop codes K payload payload_bytes original_len bit_index2
              (out_text @ [symbol (codes ! nat (find_code codes K m j2 0))])))
            \<le> max (length (out_text @ [symbol (codes ! nat (find_code codes K m j2 0))])) (nat original_len)" .
      moreover have "max (length (out_text @ [symbol (codes ! nat (find_code codes K m j2 0))]))
            (nat original_len) \<le> max (length out_text) (nat original_len)"
        using True by simp arith
      ultimately show ?thesis unfolding e by (rule order_trans)
    qed
  qed
qed

text \<open>
  Claim C3. For every buffer with an invalid header (it is not empty, and its first
  byte \<open>K\<close> is \<open>0\<close> or the buffer is shorter than \<open>1 + K\<close>) the decoder returns the empty
  message and reports invalid compressed data. For every buffer with a valid header,
  whenever the main loop is at its head in a reachable state and the two scans then
  yield a pair \<open>(m, j)\<close> that no entry of the rebuilt table carries, the decoder returns
  exactly the output written up to that state and reports the missing pair. In every
  case the decoder returns, and its output is never longer than \<open>original_len\<close>, the
  room the caller has to provide.
\<close>

theorem corrupt_stream:
  "(comp_data \<noteq> [] \<and> (unat (comp_data ! 0) = 0 \<or> length comp_data < 1 + unat (comp_data ! 0)) \<longrightarrow>
      decompress_cycle_based comp_data original_len = ([], Some InvalidCompressedData)) \<and>
   (K = unat (comp_data ! 0) \<and> 1 \<le> K \<and> 1 + K \<le> length comp_data \<and>
    codes = recover_table comp_data K \<and> payload = drop (1 + K) comp_data \<and>
    payload_bytes = length comp_data - (1 + K) \<and>
    loop_state codes K payload payload_bytes original_len bit_index out_text \<and>
    int (length out_text) < original_len \<and> bit_index < payload_bytes * 8 \<and>
    count_zeros payload (payload_bytes * 8) bit_index 0 = (bit_index1, m, j) \<and> j \<noteq> 0 \<and>
    count_ones payload (payload_bytes * 8) bit_index1 j = (bit_index2, j2) \<and>
    (\<forall>r < K. \<not> (code_m (codes ! r) = m \<and> code_j (codes ! r) = j2)) \<longrightarrow>
      decompress_cycle_based comp_data original_len = (out_text, Some (PairNotFound m j2))) \<and>
   length (fst (decompress_cycle_based comp_data original_len)) \<le> nat original_len"
proof (intro conjI impI)
  assume "comp_data \<noteq> [] \<and> (unat (comp_data ! 0) = 0 \<or> length comp_data < 1 + unat (comp_data ! 0))"
  then show "decompress_cycle_based comp_data original_len = ([], Some InvalidCompressedData)"
    by (auto simp: decompress_cycle_based_def Let_def)
next
  assume a: "K = unat (comp_data ! 0) \<and> 1 \<le> K \<and> 1 + K \<le> length comp_data \<and>
    codes = recover_table comp_data K \<and> payload = drop (1 + K) comp_data \<and>
    payload_bytes = length comp_data - (1 + K) \<and>
    loop_state codes K payload payload_bytes original_len bit_index out_text \<and>
    int (length out_text) < original_len \<and> bit_index < payload_bytes * 8 \<and>
    count_zeros payload (payload_bytes * 8) bit_index 0 = (bit_index1, m, j) \<and> j \<noteq> 0 \<and>
    count_ones payload (payload_bytes * 8) bit_index1 j = (bit_index2, j2) \<and>
    (\<forall>r < K. \<not> (code_m (codes ! r) = m \<and> code_j (codes ! r) = j2))"
  then have hdr: "K = unat (comp_data ! 0)" "1 \<le> K" "1 + K \<le> length comp_data"
    "codes = recover_table comp_data K" "payload = drop (1 + K) comp_data"
    "payload_bytes = length comp_data - (1 + K)"
    and st: "loop_state codes K payload payload_bytes original_len bit_index out_text"
    and sc: "int (length out_text) < original_len" "bit_index < payload_bytes * 8"
    "count_zeros payload (payload_bytes * 8) bit_index 0 = (bit_index1, m, j)" "j \<noteq> 0"
    "count_ones payload (payload_bytes * 8) bit_index1 j = (bit_index2, j2)"
    "\<forall>r < K. \<not> (code_m (codes ! r) = m \<and> code_j (codes ! r) = j2)"
    by blast+
  have "decompress_cycle_based comp_data original_len =
      decode_loop codes K payload payload_bytes original_len 0 []"
  proof -
    from hdr(3) have "comp_data \<noteq> []" by auto
    with hdr show ?thesis by (simp add: decompress_cycle_based_def Let_def)
  qed
  also have "\<dots> = decode_loop codes K payload payload_bytes original_len bit_index out_text"
    by (rule loop_state_run[OF st])
  also have "\<dots> = (out_text, Some (PairNotFound m j2))"
    by (rule decode_loop_pair_not_found[OF sc])
  finally show "decompress_cycle_based comp_data original_len = (out_text, Some (PairNotFound m j2))" .
next
  show "length (fst (decompress_cycle_based comp_data original_len)) \<le> nat original_len"
    using decode_loop_length[of "recover_table comp_data (unat (comp_data ! 0))"
        "unat (comp_data ! 0)" "drop (1 + unat (comp_data ! 0)) comp_data"
        "length comp_data - (1 + unat (comp_data ! 0))" original_len 0 "[]"]
    by (simp add: decompress_cycle_based_def Let_def)
qed

text \<open>The run on the buffer \<open>0x02, 0x61, 0x62, 0x47\<close> (payload bits \<open>01000111\<close>): the
  first code is \<open>(1, 1)\<close>, the symbol \<open>a\<close>; the second scan yields \<open>(3, 3)\<close>, which the
  table for \<open>K = 2\<close> does not hold. And the run on the one-byte buffer \<open>0x00\<close>.\<close>

theorem corrupt_stream_witness:
  "decompress_cycle_based [0x00] 5 = ([], Some InvalidCompressedData) \<and>
   loop_state (recover_table [0x02, 0x61, 0x62, 0x47] 2) 2 [0x47] 1 3 2 [0x61] \<and>
   decompress_cycle_based [0x02, 0x61, 0x62, 0x47] 3 = ([0x61], Some (PairNotFound 3 3))"
proof -
  let ?buf = "[0x02, 0x61, 0x62, 0x47] :: u8 list"
  let ?T = "recover_table ?buf 2"
  have tbl: "?T = [\<lparr>symbol = 0x61, freq = 0, code_m = 1, code_j = 1\<rparr>,
                   \<lparr>symbol = 0x62, freq = 0, code_m = 2, code_j = 1\<rparr>]"
    by code_simp
  have cz0: "count_zeros [0x47] (1 * 8) 0 0 = (2, 1, 1)" by code_simp
  have co0: "count_ones [0x47] (1 * 8) 2 1 = (2, 1)" by code_simp
  have fc0: "find_code ?T 2 1 1 0 = 0" by code_simp
  have "loop_state ?T 2 [0x47] 1 3 2 ([] @ [symbol (?T ! nat 0)])"
    by (rule loop_iteration[OF loop_entry _ _ cz0 _ co0 fc0]) simp_all
  then have ls: "loop_state ?T 2 [0x47] 1 3 2 [0x61]" by (simp add: tbl)
  have cz1: "count_zeros [0x47] (1 * 8) 2 0 = (6, 3, 1)" by code_simp
  have co1: "count_ones [0x47] (1 * 8) 6 1 = (8, 3)" by code_simp
  have none: "\<forall>r < 2. \<not> (code_m (?T ! r) = 3 \<and> code_j (?T ! r) = 3)"
    unfolding tbl by (simp add: less_Suc_eq numeral_2_eq_2)
  have a: "decompress_cycle_based [0x00] 5 = ([], Some InvalidCompressedData)"
    using corrupt_stream[where comp_data = "[0x00]" and original_len = 5, THEN conjunct1]
    by simp
  have b: "decompress_cycle_based ?buf 3 = ([0x61], Some (PairNotFound 3 3))"
    using corrupt_stream[where comp_data = ?buf and original_len = 3 and K = 2 and codes = ?T
        and payload = "[0x47]" and payload_bytes = 1 and bit_index = 2 and out_text = "[0x61]"
        and ?bit_index1.0 = 6 and m = 3 and j = 1 and ?bit_index2.0 = 8 and ?j2.0 = 3,
        THEN conjunct2, THEN conjunct1] ls cz1 co1 none
    by simp
  from a ls b show ?thesis by simp
qed

subsection \<open>Self-synchronization\<close>






subsection \<open>The shape of the compressed buffer\<close>






end
